theory Spec2Isabelle
  imports Main "HOL-Library.AList"
begin

section \<open>JavaScript values and strings\<close>

text \<open>The values an attribute can hold, and the objects built from them: an object is an
  association list in insertion order, and reading a key it does not have gives the undefined
  value. A string is a list of characters, one per code unit, a character being a code unit
  below 256. Of the white space that \<^verbatim>\<open>String.prototype.trim\<close> strips, these are TAB, LF, VT,
  FF, CR, SPACE and the no-break space U+00A0. \<open>js_slice\<close> is \<^verbatim>\<open>String.prototype.slice\<close> with
  both indices given.\<close>

datatype jsval = JUndefined | JNull | JBool bool | JNum int | JStr string

type_synonym jsobject = "(string \<times> jsval) list"

definition js_get :: "jsobject \<Rightarrow> string \<Rightarrow> jsval" where
  "js_get obj key = (case map_of obj key of None \<Rightarrow> JUndefined | Some v \<Rightarrow> v)"

fun truthy :: "jsval \<Rightarrow> bool" where
  "truthy JUndefined = False"
| "truthy JNull = False"
| "truthy (JBool b) = b"
| "truthy (JNum n) = (n \<noteq> 0)"
| "truthy (JStr s) = (s \<noteq> [])"

definition is_white_space :: "char \<Rightarrow> bool" where
  "is_white_space c =
     (c \<in> set [CHR 0x09, CHR 0x0A, CHR 0x0B, CHR 0x0C, CHR 0x0D, CHR '' '', CHR 0xA0])"

definition js_trim :: "string \<Rightarrow> string" where
  "js_trim s = rev (dropWhile is_white_space (rev (dropWhile is_white_space s)))"

definition js_slice :: "string \<Rightarrow> int \<Rightarrow> int \<Rightarrow> string" where
  "js_slice s start end =
     (let len = int (length s);
          clamp = (\<lambda>i. if i < 0 then max 0 (len + i) else min i len);
          a = clamp start;
          b = clamp end
      in take (nat (b - a)) (drop (nat a) s))"

section \<open>The content tree\<close>

text \<open>The tree of \<^verbatim>\<open>prosemirror-model\<close>, as \<^verbatim>\<open>ProsemirrorHelper\<close> reads it. A node type has
  its name, the \<^verbatim>\<open>inline\<close> flag of its spec, whether its content expression admits no content
  (\<^verbatim>\<open>isLeaf\<close>) and whether its content is inline. A node has its type, attributes, children
  and marks; a text node (the class \<^verbatim>\<open>TextNode\<close>, always of the type text) has marks and
  its text, and no children. A text node takes as many positions as its text has code units,
  a leaf one, and any other node two more than its content.\<close>

record NodeType =
  name :: string
  spec_inline :: bool
  contentMatch_empty :: bool
  inlineContent :: bool

datatype mark = Mark (mark_name: string) (mark_attrs: jsobject)

datatype node =
    Text (marks: "mark list") (text': string)
  | Node (ntype: NodeType) (attrs: jsobject) (content: "node list") (marks: "mark list")
where
  "content (Text ms t) = []"
| "attrs (Text ms t) = []"
| "text' (Node ty a cs ms) = []"
| "ntype (Text ms t) =
     \<lparr>name = ''text'', spec_inline = True, contentMatch_empty = True, inlineContent = False\<rparr>"

definition type_name :: "node \<Rightarrow> string" where
  "type_name n = name (ntype n)"

fun isText :: "node \<Rightarrow> bool" where
  "isText (Text ms t) = True"
| "isText (Node ty a cs ms) = False"

definition isBlock :: "node \<Rightarrow> bool" where
  "isBlock n = (\<not> (spec_inline (ntype n) \<or> isText n))"

definition isLeaf :: "node \<Rightarrow> bool" where
  "isLeaf n = contentMatch_empty (ntype n)"

definition isTextblock :: "node \<Rightarrow> bool" where
  "isTextblock n = (isBlock n \<and> inlineContent (ntype n))"

fun nodeSize :: "node \<Rightarrow> int" where
  "nodeSize (Text ms t) = int (length t)"
| "nodeSize (Node ty a cs ms) =
     (if contentMatch_empty ty then 1 else 2 + sum_list (map nodeSize cs))"

definition fragment_size :: "node list \<Rightarrow> int" where
  "fragment_size frag = sum_list (map nodeSize frag)"

definition childCount :: "node \<Rightarrow> int" where
  "childCount n = int (length (content n))"

definition maybeChild :: "node \<Rightarrow> int \<Rightarrow> node option" where
  "maybeChild n i = (if 0 \<le> i \<and> i < childCount n then Some (content n ! nat i) else None)"

text \<open>\<^verbatim>\<open>Fragment.nodesBetween\<close>: the loop over the children of a fragment, \<open>pos\<close> its running
  position. The callback \<open>f\<close> is called with the child, its absolute position and the state
  the JavaScript callback would update in its closure, and returns the new state together
  with whether the walk descends into the child (anything but \<^verbatim>\<open>false\<close>). The loop ends when
  \<open>pos\<close> reaches \<open>to\<close>, which comes no later than the last child when \<open>to\<close> is at most the
  size of the fragment, as it is in every call made here.\<close>

function nodesBetween ::
  "node list \<Rightarrow> int \<Rightarrow> int \<Rightarrow> int \<Rightarrow> (node \<Rightarrow> int \<Rightarrow> 's \<Rightarrow> bool \<times> 's) \<Rightarrow> int \<Rightarrow> 's \<Rightarrow> 's" where
  "nodesBetween [] pos from to f nodeStart s = s"
| "nodesBetween (child # rest) pos from to f nodeStart s =
    (if pos < to then
       (let end = pos + nodeSize child;
            s1 = (if end > from then
                    (case f child (nodeStart + pos) s of
                       (descend, s') \<Rightarrow>
                         if descend \<and> fragment_size (content child) \<noteq> 0
                         then (let start = pos + 1
                               in nodesBetween (content child) 0 (max 0 (from - start))
                                    (min (fragment_size (content child)) (to - start))
                                    f (nodeStart + start) s')
                         else s')
                  else s)
        in nodesBetween rest end from to f nodeStart s1)
     else s)"
  by pat_completeness auto
termination
proof (relation "measure (\<lambda>(xs, pos, from, to, f, nodeStart, s). size_list size xs)", goal_cases)
  case 1
  show ?case by simp
next
  case (2 child)
  show ?case by (cases child) auto
next
  case 3
  show ?case by simp
qed

definition descendants :: "node \<Rightarrow> (node \<Rightarrow> int \<Rightarrow> 's \<Rightarrow> bool \<times> 's) \<Rightarrow> 's \<Rightarrow> 's" where
  "descendants n f s = nodesBetween (content n) 0 0 (fragment_size (content n)) f 0 s"

text \<open>The schema: for each node type name, the two functions of the type's spec that produce
  text, \<^verbatim>\<open>toPlainText\<close> (read by \<^verbatim>\<open>ProsemirrorHelper.toPlainText\<close>) and \<^verbatim>\<open>leafText\<close> (read by
  ProseMirror's own text content). Where the source reaches the schema through
  \<^verbatim>\<open>doc.type.schema\<close> or a node's type, the model takes it as an argument.\<close>

record NodeSpec =
  spec_toPlainText :: "(node \<Rightarrow> string) option"
  spec_leafText :: "(node \<Rightarrow> string) option"

record Schema =
  nodes :: "string \<Rightarrow> NodeSpec option"

definition leafText :: "Schema \<Rightarrow> node \<Rightarrow> (node \<Rightarrow> string) option" where
  "leafText schema n = Option.bind (nodes schema (type_name n)) spec_leafText"

definition Fragment_textBetween ::
  "Schema \<Rightarrow> node list \<Rightarrow> int \<Rightarrow> int \<Rightarrow> string \<Rightarrow> string" where
  "Fragment_textBetween schema frag from to blockSeparator =
     fst (nodesBetween frag 0 from to
       (\<lambda>n pos (text, first).
          let nodeText =
                (if isText n then js_slice (text' n) (max from pos - pos) (to - pos)
                 else if \<not> isLeaf n then []
                 else (case leafText schema n of Some lt \<Rightarrow> lt n | None \<Rightarrow> []));
              (text, first) =
                (if isBlock n \<and> (isLeaf n \<and> nodeText \<noteq> [] \<or> isTextblock n) \<and> blockSeparator \<noteq> []
                 then (if first then (text, False) else (text @ blockSeparator, first))
                 else (text, first))
          in (True, (text @ nodeText, first)))
       0 ([], True))"

definition textContent :: "Schema \<Rightarrow> node \<Rightarrow> string" where
  "textContent schema n =
     (if isText n then text' n
      else (case (if isLeaf n then leafText schema n else None) of
              Some lt \<Rightarrow> lt n
            | None \<Rightarrow> Fragment_textBetween schema (content n) 0 (fragment_size (content n)) []))"

text \<open>\<^verbatim>\<open>Node.cut\<close>, \<^verbatim>\<open>TextNode.cut\<close> and \<^verbatim>\<open>Fragment.cut\<close> with its loop: the children that
  overlap the range, the first and the last cut themselves where the range ends inside
  them.\<close>

fun cut :: "node \<Rightarrow> int \<Rightarrow> int \<Rightarrow> node"
  and Fragment_cut :: "node list \<Rightarrow> int \<Rightarrow> int \<Rightarrow> node list"
  and Fragment_cut_loop :: "node list \<Rightarrow> int \<Rightarrow> int \<Rightarrow> int \<Rightarrow> node list" where
  "cut (Text ms t) from to =
     (if from = 0 \<and> to = int (length t) then Text ms t else Text ms (js_slice t from to))"
| "cut (Node ty a cs ms) from to =
     (if from = 0 \<and> to = fragment_size cs then Node ty a cs ms
      else Node ty a (Fragment_cut cs from to) ms)"
| "Fragment_cut frag from to =
     (if from = 0 \<and> to = fragment_size frag then frag
      else if to > from then Fragment_cut_loop frag 0 from to
      else [])"
| "Fragment_cut_loop [] pos from to = []"
| "Fragment_cut_loop (child # rest) pos from to =
     (if pos < to then
        (let end = pos + nodeSize child
         in (if end > from then
               [if pos < from \<or> end > to then
                  (if isText child
                   then cut child (max 0 (from - pos)) (min (int (length (text' child))) (to - pos))
                   else cut child (max 0 (from - pos - 1))
                          (min (fragment_size (content child)) (to - pos - 1)))
                else child]
             else [])
            @ Fragment_cut_loop rest end from to)
      else [])"

section \<open>Collaborators of this repository that are not among the sources\<close>

text \<open>Modelled from the spec: \<^verbatim>\<open>textBetween\<close> (\<^verbatim>\<open>shared/editor/lib/textBetween\<close>) is not
  among the sources. Section 4.1 of the specification: the range is walked depth-first, left to
  right; a node whose type has a registered serializer contributes the serializer's result
  instead of its children; a text node contributes its literal text; before the text of a
  block other than the first a block separator (a newline) is written. Which blocks start a
  run is decided as ProseMirror's own \<^verbatim>\<open>textBetween\<close> decides it.\<close>

definition textBetween ::
  "node \<Rightarrow> int \<Rightarrow> int \<Rightarrow> (string \<Rightarrow> (node \<Rightarrow> string) option) \<Rightarrow> string" where
  "textBetween doc from to plainTextSerializers =
     (let blockSeparator = [CHR 0x0A]
      in fst (nodesBetween (content doc) 0 from to
           (\<lambda>n pos (text, first).
              let toPlainText = plainTextSerializers (type_name n);
                  nodeText =
                    (case toPlainText of
                       Some serializer \<Rightarrow> serializer n
                     | None \<Rightarrow>
                         if isText n then js_slice (text' n) (max from pos - pos) (to - pos)
                         else []);
                  (text, first) =
                    (if isBlock n \<and> (isLeaf n \<and> nodeText \<noteq> [] \<or> isTextblock n)
                     then (if first then (text, False) else (text @ blockSeparator, first))
                     else (text, first))
              in (toPlainText = None, (text @ nodeText, first)))
           0 ([], True)))"

text \<open>Modelled from the spec: \<^verbatim>\<open>headingToSlug\<close> (\<^verbatim>\<open>shared/editor/lib/headingToSlug\<close>) and
  the slug function it delegates to are not among the sources. Section 4.6 of the
  specification: the base id is a slug of the heading's text content, ASCII-normalized,
  lowercased, punctuation stripped; given a disambiguation parameter \<open>k \<ge> 1\<close> the slug
  function appends a numeric suffix, so that the headings Intro, Intro, Intro get the ids
  intro, intro-1, intro-2 (section 8, property 5). As slug functions do, \<open>slugify\<close> keeps
  letters, digits and hyphens and writes a hyphen for a space.\<close>

definition slugify_char :: "char \<Rightarrow> string" where
  "slugify_char c =
     (let k = (of_char c :: nat)
      in if 65 \<le> k \<and> k \<le> 90 then [char_of (k + 32)]
         else if 97 \<le> k \<and> k \<le> 122 \<or> 48 \<le> k \<and> k \<le> 57 \<or> c = CHR ''-'' then [c]
         else if c = CHR '' '' then [CHR ''-'']
         else [])"

definition slugify :: "string \<Rightarrow> string" where
  "slugify s = concat (map slugify_char s)"

fun decimal :: "nat \<Rightarrow> string" where
  "decimal n =
     (if n < 10 then [char_of (48 + n)] else decimal (n div 10) @ [char_of (48 + n mod 10)])"

declare decimal.simps [simp del]

definition headingToSlug :: "Schema \<Rightarrow> node \<Rightarrow> nat \<Rightarrow> string" where
  "headingToSlug schema n index =
     (let slugified = slugify (textContent schema n)
      in if index = 0 then slugified else slugified @ ''-'' @ decimal index)"

section \<open>ProsemirrorHelper\<close>

text \<open>The functions of \<^verbatim>\<open>shared/utils/ProsemirrorHelper.ts\<close>. A \<open>CommentMark\<close> is the object
  the source builds by spreading the mark's attributes and then setting \<open>text\<close>. The fields
  \<open>level\<close> and \<open>completed\<close> hold the attribute value as it is read. \<open>getEmptyDocument\<close>
  returns JSON data (\<^verbatim>\<open>ProsemirrorData\<close>), not a node: objects with the keys \<open>type\<close> and
  \<open>content\<close>, which are the keys the source writes. The two loops of \<open>trim\<close> are
  \<open>trim_scan_start\<close> and \<open>trim_scan_end\<close>; each returns the index, the offset and the flag
  with which it leaves the loop. The body of the loop of \<open>getHeadings\<close> is
  \<open>getHeadings_step\<close>, with the list of headings and the object \<open>previouslySeen\<close> as its
  state.

  \<open>previouslySeen\<close> starts as \<^verbatim>\<open>{}\<close>: an object without properties of its own that inherits
  those of \<^verbatim>\<open>Object.prototype\<close>. Reading a key gives the object's own value, else the
  inherited value, else undefined (\<open>None\<close>). A value is a number, or something that is not a
  number (\<open>NotANumber\<close>): an inherited function or object, or the string that \<^verbatim>\<open>+ 1\<close> makes of
  one. Such a value is not undefined, \<^verbatim>\<open>> 0\<close> is false of it, and \<^verbatim>\<open>+ 1\<close> makes a string of
  it again.\<close>

record Heading =
  title :: string
  level :: jsval
  id' :: string

type_synonym CommentMark = jsobject

record Task =
  text'' :: string
  completed :: jsval

datatype ProsemirrorData = ProsemirrorData (data_type: string) (data_content: "ProsemirrorData list")

definition getEmptyDocument :: ProsemirrorData where
  "getEmptyDocument = ProsemirrorData ''doc'' [ProsemirrorData ''paragraph'' []]"

definition textSerializers :: "Schema \<Rightarrow> string \<Rightarrow> (node \<Rightarrow> string) option" where
  "textSerializers schema nm = Option.bind (nodes schema nm) spec_toPlainText"

definition toPlainText :: "node \<Rightarrow> Schema \<Rightarrow> string" where
  "toPlainText root schema =
     textBetween root 0 (fragment_size (content root)) (textSerializers schema)"

function trim_scan_start :: "Schema \<Rightarrow> node \<Rightarrow> int \<Rightarrow> int \<Rightarrow> int \<times> int \<times> bool" where
  "trim_scan_start schema doc index start =
     (case maybeChild doc index of
        None \<Rightarrow> (index + 1, start, True)
      | Some n \<Rightarrow>
          (let isEmpty = (js_trim (toPlainText n schema) = [])
           in if isEmpty then trim_scan_start schema doc (index + 1) (start + nodeSize n)
              else (index + 1, start, isEmpty)))"
  by pat_completeness auto
termination
  by (relation "measure (\<lambda>(schema, doc, index, start). nat (childCount doc - index))")
     (auto simp: maybeChild_def split: if_splits)

function trim_scan_end :: "Schema \<Rightarrow> node \<Rightarrow> int \<Rightarrow> int \<Rightarrow> int \<times> int \<times> bool" where
  "trim_scan_end schema doc index end =
     (case maybeChild doc index of
        None \<Rightarrow> (index - 1, end, True)
      | Some n \<Rightarrow>
          (let isEmpty = (js_trim (toPlainText n schema) = [])
           in if isEmpty then trim_scan_end schema doc (index - 1) (end - nodeSize n)
              else (index - 1, end, isEmpty)))"
  by pat_completeness auto
termination
  by (relation "measure (\<lambda>(schema, doc, index, end). nat (index + 1))")
     (auto simp: maybeChild_def split: if_splits)

declare trim_scan_start.simps [simp del] trim_scan_end.simps [simp del]

definition trim :: "Schema \<Rightarrow> node \<Rightarrow> node" where
  "trim schema doc =
     (let end = nodeSize doc - 2
      in if childCount doc \<le> 1 then doc
         else (let (index, start, isEmpty) = trim_scan_start schema doc 0 0;
                   (index, end, isEmpty) = trim_scan_end schema doc (childCount doc - 1) end
               in cut doc start end))"

definition isEmpty :: "Schema \<Rightarrow> node option \<Rightarrow> bool" where
  "isEmpty schema doc =
     (case doc of None \<Rightarrow> True | Some d \<Rightarrow> js_trim (textContent schema d) = [])"

definition getComments :: "Schema \<Rightarrow> node \<Rightarrow> CommentMark list" where
  "getComments schema doc =
     descendants doc
       (\<lambda>n pos comments.
          (True,
           foldl (\<lambda>comments m.
                    if mark_name m = ''comment''
                    then comments @ [AList.update ''text'' (JStr (textContent schema n)) (mark_attrs m)]
                    else comments)
             comments (marks n)))
       []"

definition getTasks :: "Schema \<Rightarrow> node \<Rightarrow> Task list" where
  "getTasks schema doc =
     descendants doc
       (\<lambda>n pos tasks.
          if \<not> isBlock n then (False, tasks)
          else (True,
                if type_name n = ''checkbox_list''
                then foldl (\<lambda>tasks listItem.
                              let text = foldl (\<lambda>text contentNode.
                                                  if type_name contentNode = ''paragraph''
                                                  then text @ textContent schema contentNode
                                                  else text)
                                           [] (content listItem)
                              in tasks @ [\<lparr>text'' = text, completed = js_get (attrs listItem) ''checked''\<rparr>])
                       tasks (content n)
                else tasks))
       []"

record TasksSummary =
  summary_completed :: nat
  total :: nat

definition getTasksSummary :: "Schema \<Rightarrow> node \<Rightarrow> TasksSummary" where
  "getTasksSummary schema doc =
     (let tasks = getTasks schema doc
      in \<lparr>summary_completed = length (filter (\<lambda>t. truthy (completed t)) tasks),
          total = length tasks\<rparr>)"

datatype property = Number nat | NotANumber

definition Object_prototype_keys :: "string list" where
  "Object_prototype_keys =
     [''constructor'', ''__defineGetter__'', ''__defineSetter__'', ''hasOwnProperty'',
      ''__lookupGetter__'', ''__lookupSetter__'', ''isPrototypeOf'', ''propertyIsEnumerable'',
      ''toString'', ''valueOf'', ''__proto__'', ''toLocaleString'']"

definition object_get :: "(string \<Rightarrow> property option) \<Rightarrow> string \<Rightarrow> property option" where
  "object_get obj key =
     (case obj key of
        Some v \<Rightarrow> Some v
      | None \<Rightarrow> if key \<in> set Object_prototype_keys then Some NotANumber else None)"

definition getHeadings_step ::
  "Schema \<Rightarrow> Heading list \<times> (string \<Rightarrow> property option) \<Rightarrow> node \<Rightarrow>
     Heading list \<times> (string \<Rightarrow> property option)" where
  "getHeadings_step schema st n =
     (case st of (headings, previouslySeen) \<Rightarrow>
        if type_name n = ''heading'' then
          (let ident = headingToSlug schema n 0;
               nm = (case object_get previouslySeen ident of
                       Some (Number k) \<Rightarrow> if k > 0 then headingToSlug schema n k else ident
                     | Some NotANumber \<Rightarrow> ident
                     | None \<Rightarrow> ident);
               previouslySeen = previouslySeen(ident \<mapsto>
                       (case object_get previouslySeen ident of
                          Some (Number k) \<Rightarrow> Number (k + 1)
                        | Some NotANumber \<Rightarrow> NotANumber
                        | None \<Rightarrow> Number 1))
           in (headings @ [\<lparr>title = textContent schema n, level = js_get (attrs n) ''level'', id' = nm\<rparr>],
               previouslySeen))
        else (headings, previouslySeen))"

definition getHeadings :: "Schema \<Rightarrow> node \<Rightarrow> Heading list" where
  "getHeadings schema doc = fst (foldl (getHeadings_step schema) ([], Map.empty) (content doc))"

text \<open>A top-level child counts as empty for \<open>trim\<close> when its plain text trims to the empty
  string: the test both loops of \<open>trim\<close> make.\<close>

definition is_empty_block :: "Schema \<Rightarrow> node \<Rightarrow> bool" where
  "is_empty_block schema n = (js_trim (toPlainText n schema) = [])"

text \<open>All nodes of a subtree, the root first, in document order.\<close>

fun subnodes :: "node \<Rightarrow> node list" where
  "subnodes (Text ms t) = [Text ms t]"
| "subnodes (Node ty a cs ms) = Node ty a cs ms # concat (map subnodes cs)"

text \<open>The trees ProseMirror can hold: a text node has text, and a node of a leaf type has no
  children.\<close>

fun wf_node :: "node \<Rightarrow> bool" where
  "wf_node (Text ms t) = (t \<noteq> [])"
| "wf_node (Node ty a cs ms) = ((contentMatch_empty ty \<longrightarrow> cs = []) \<and> list_all wf_node cs)"

text \<open>The nodes of a subtree that a walk reaches when it goes below the nodes that satisfy
  \<open>d\<close> only, in document order.\<close>

fun reached :: "(node \<Rightarrow> bool) \<Rightarrow> node \<Rightarrow> node list" where
  "reached d (Text ms t) = [Text ms t]"
| "reached d (Node ty a cs ms) =
     Node ty a cs ms # (if d (Node ty a cs ms) then concat (map (reached d) cs) else [])"

text \<open>The occurrences of comment marks in a document: each node below the document with each
  of its marks of type comment, in document order and in the order of the node's marks.\<close>

definition comment_marks :: "node \<Rightarrow> (node \<times> mark) list" where
  "comment_marks doc =
     concat (map (\<lambda>n. map (Pair n) (filter (\<lambda>m. mark_name m = ''comment'') (marks n)))
       (concat (map subnodes (content doc))))"

text \<open>The items of the checklists of a document: the children of each block of type
  \<open>checkbox_list\<close> that lies below blocks only, in document order.\<close>

definition checklist_items :: "node \<Rightarrow> node list" where
  "checklist_items doc =
     concat (map content
       (filter (\<lambda>n. isBlock n \<and> type_name n = ''checkbox_list'')
          (concat (map (reached isBlock) (content doc)))))"

section \<open>Example schema and documents\<close>

text \<open>Node types as a schema for documents declares them, a schema without functions that
  produce text, and documents built from them.\<close>

definition paragraph_type :: NodeType where
  "paragraph_type =
     \<lparr>name = ''paragraph'', spec_inline = False, contentMatch_empty = False, inlineContent = True\<rparr>"

definition doc_type :: NodeType where
  "doc_type =
     \<lparr>name = ''doc'', spec_inline = False, contentMatch_empty = False, inlineContent = False\<rparr>"

definition plain_schema :: Schema where
  "plain_schema = \<lparr>nodes = Map.empty\<rparr>"

text \<open>A node of the shape of the JSON that \<open>getEmptyDocument\<close> returns: a document with one
  paragraph without children.\<close>

definition empty_doc_node :: node where
  "empty_doc_node = Node doc_type [] [Node paragraph_type [] [] []] []"

definition para :: "string \<Rightarrow> node" where
  "para t = Node paragraph_type [] (if t = [] then [] else [Text [] t]) []"

definition hello_doc :: node where
  "hello_doc = Node doc_type [] [para [], para ''Hello'', para []] []"

definition checkbox_list_type :: NodeType where
  "checkbox_list_type =
     \<lparr>name = ''checkbox_list'', spec_inline = False, contentMatch_empty = False, inlineContent = False\<rparr>"

definition checkbox_item_type :: NodeType where
  "checkbox_item_type =
     \<lparr>name = ''checkbox_item'', spec_inline = False, contentMatch_empty = False, inlineContent = False\<rparr>"

definition checkbox_item :: "jsobject \<Rightarrow> string \<Rightarrow> node" where
  "checkbox_item a t = Node checkbox_item_type a [para t] []"

definition tasks_doc :: node where
  "tasks_doc =
     Node doc_type []
       [Node checkbox_list_type []
          [checkbox_item [(''checked'', JBool True)] ''buy milk'',
           checkbox_item [(''checked'', JBool False)] ''write tests''] []] []"

definition comment_doc :: node where
  "comment_doc =
     Node doc_type []
       [Node paragraph_type []
          [Text [Mark ''comment'' [(''id'', JStr ''a''), (''userId'', JStr ''u1'')],
                 Mark ''comment'' [(''id'', JStr ''b''), (''userId'', JStr ''u2'')]] ''hello''] []] []"

definition repeated_comment_doc :: node where
  "repeated_comment_doc =
     Node doc_type []
       [Node paragraph_type []
          [Text [Mark ''comment'' [(''id'', JStr ''a''), (''userId'', JStr ''u1'')],
                 Mark ''strong'' [],
                 Mark ''comment'' [(''id'', JStr ''a''), (''userId'', JStr ''u1'')]] ''hello''] []] []"

definition override_doc :: node where
  "override_doc =
     Node doc_type []
       [Node paragraph_type []
          [Text [Mark ''comment'' [(''text'', JStr ''from the mark'')],
                 Mark ''comment'' [(''id'', JStr ''b''), (''userId'', JStr ''u2'')]] ''hello''] []] []"

definition unchecked_doc :: node where
  "unchecked_doc =
     Node doc_type []
       [Node checkbox_list_type []
          [checkbox_item [(''checked'', JBool False)] ''open'',
           checkbox_item [] ''no flag''] []] []"

definition truthy_tasks_doc :: node where
  "truthy_tasks_doc =
     Node doc_type []
       [Node checkbox_list_type []
          [checkbox_item [(''checked'', JBool True)] ''one'',
           checkbox_item [(''checked'', JNum 1)] ''two'',
           checkbox_item [(''checked'', JStr ''yes'')] ''three''] []] []"

definition mention_type :: NodeType where
  "mention_type =
     \<lparr>name = ''mention'', spec_inline = True, contentMatch_empty = True, inlineContent = False\<rparr>"

definition mention_schema :: Schema where
  "mention_schema =
     \<lparr>nodes = [''mention'' \<mapsto>
        \<lparr>spec_toPlainText = Some (\<lambda>n. case js_get (attrs n) ''label'' of JStr l \<Rightarrow> CHR ''@'' # l | _ \<Rightarrow> ''@''),
         spec_leafText = None\<rparr>]\<rparr>"

definition mention_doc :: node where
  "mention_doc =
     Node doc_type [] [Node paragraph_type [] [Node mention_type [(''label'', JStr ''bob'')] [] []] []] []"

definition heading_type :: NodeType where
  "heading_type =
     \<lparr>name = ''heading'', spec_inline = False, contentMatch_empty = False, inlineContent = True\<rparr>"

definition heading :: "int \<Rightarrow> string \<Rightarrow> node" where
  "heading lvl t = Node heading_type [(''level'', JNum lvl)] [Text [] t] []"


definition constructor_doc :: node where
  "constructor_doc =
     Node doc_type [] [heading 1 ''Constructor'', heading 1 ''Constructor'', heading 1 ''Constructor''] []"

definition clash_doc :: node where
  "clash_doc = Node doc_type [] [heading 1 ''Intro'', heading 1 ''Intro'', heading 1 ''Intro 1''] []"

definition blank_doc :: node where
  "blank_doc = Node doc_type [] [para [], para '' ''] []"

section \<open>Sizes\<close>

lemma nodeSize_nonneg: "0 \<le> nodeSize n"
  by (induction n) (auto intro!: sum_list_nonneg add_nonneg_nonneg)

lemma fragment_size_nonneg: "0 \<le> fragment_size xs"
  by (auto simp: fragment_size_def intro!: sum_list_nonneg nodeSize_nonneg)

lemma fragment_size_Nil [simp]: "fragment_size [] = 0"
  by (simp add: fragment_size_def)

lemma fragment_size_Cons [simp]: "fragment_size (x # xs) = nodeSize x + fragment_size xs"
  by (simp add: fragment_size_def)

lemma fragment_size_append [simp]: "fragment_size (xs @ ys) = fragment_size xs + fragment_size ys"
  by (simp add: fragment_size_def)

lemma fragment_size_rev [simp]: "fragment_size (rev xs) = fragment_size xs"
  by (induction xs) auto

lemma fragment_size_last: "xs \<noteq> [] \<Longrightarrow> nodeSize (last xs) \<le> fragment_size xs"
  using fragment_size_nonneg [of "butlast xs"] fragment_size_append [of "butlast xs" "[last xs]"]
  by simp

section \<open>Traversal\<close>

lemma subnodes_self: "n \<in> set (subnodes n)"
  by (cases n) auto

lemma subnodes_content: "c \<in> set (content n) \<Longrightarrow> set (subnodes c) \<subseteq> set (subnodes n)"
  by (cases n) auto

lemma nodesBetween_invariant:
  "(\<And>n p s. n \<in> (\<Union>x\<in>set xs. set (subnodes x)) \<Longrightarrow> P s \<Longrightarrow> P (snd (f n p s))) \<Longrightarrow> P s \<Longrightarrow>
   P (nodesBetween xs pos lo hi f nodeStart s)"
proof (induction xs pos lo hi f nodeStart s rule: nodesBetween.induct)
  case (1 pos lo hi f nodeStart s)
  then show ?case by simp
next
  case (2 child rest pos lo hi f nodeStart s)
  show ?case
  proof (cases "pos < hi")
    case False
    then show ?thesis using "2.prems" by simp
  next
    case True
    define s1 where "s1 =
      (if pos + nodeSize child > lo then
         (case f child (nodeStart + pos) s of
            (descend, s') \<Rightarrow>
              if descend \<and> fragment_size (content child) \<noteq> 0
              then (let start = pos + 1
                    in nodesBetween (content child) 0 (max 0 (lo - start))
                         (min (fragment_size (content child)) (hi - start))
                         f (nodeStart + start) s')
              else s')
       else s)"
    have step: "P (snd (f n p s))"
      if mem: "n \<in> (\<Union>x\<in>set (content child). set (subnodes x))" and Ps: "P s" for n p s
    proof -
      obtain c where "c \<in> set (content child)" "n \<in> set (subnodes c)"
        using mem by auto
      then have "n \<in> set (subnodes child)"
        using subnodes_content by blast
      then show ?thesis
        using "2.prems"(1) Ps by simp
    qed
    have "P s1"
    proof (cases "pos + nodeSize child > lo")
      case False
      then show ?thesis using "2.prems"(2) by (simp add: s1_def)
    next
      case gt: True
      obtain d s' where f: "f child (nodeStart + pos) s = (d, s')"
        by (cases "f child (nodeStart + pos) s")
      have s': "P s'"
        using "2.prems"(1) [of child s "nodeStart + pos"] "2.prems"(2) subnodes_self [of child] f by simp
      show ?thesis
      proof (cases "d \<and> fragment_size (content child) \<noteq> 0")
        case False
        then show ?thesis using gt f s' by (auto simp: s1_def)
      next
        case True
        have "P (nodesBetween (content child) 0 (max 0 (lo - (pos + 1)))
                 (min (fragment_size (content child)) (hi - (pos + 1))) f (nodeStart + (pos + 1)) s')"
          using \<open>pos < hi\<close> gt f True step s'
          by (intro "2.IH"(1) [where x = "pos + nodeSize child" and xa = d and y = s']) auto
        then show ?thesis using gt f True by (simp add: s1_def Let_def)
      qed
    qed
    moreover have "\<And>n p s. n \<in> (\<Union>x\<in>set rest. set (subnodes x)) \<Longrightarrow> P s \<Longrightarrow> P (snd (f n p s))"
      using "2.prems"(1) by auto
    ultimately have "P (nodesBetween rest (pos + nodeSize child) lo hi f nodeStart s1)"
      using True by (intro "2.IH"(2)) (auto simp: s1_def)
    then show ?thesis
      using True by (simp add: s1_def Let_def)
  qed
qed


lemma nodesBetween_related:
  "(\<And>n p s t. n \<in> (\<Union>x\<in>set xs. set (subnodes x)) \<Longrightarrow> R s t \<Longrightarrow>
      fst (f n p s) = fst (g n p t) \<and> R (snd (f n p s)) (snd (g n p t))) \<Longrightarrow>
   R s t \<Longrightarrow>
   R (nodesBetween xs pos lo hi f nodeStart s) (nodesBetween xs pos lo hi g nodeStart t)"
proof (induction xs pos lo hi f nodeStart s arbitrary: t rule: nodesBetween.induct)
  case (1 pos lo hi f nodeStart s)
  then show ?case by simp
next
  case (2 child rest pos lo hi f nodeStart s)
  show ?case
  proof (cases "pos < hi")
    case False
    then show ?thesis using "2.prems" by simp
  next
    case True
    define s1 where "s1 =
      (if pos + nodeSize child > lo then
         (case f child (nodeStart + pos) s of
            (descend, u') \<Rightarrow>
              if descend \<and> fragment_size (content child) \<noteq> 0
              then (let start = pos + 1
                    in nodesBetween (content child) 0 (max 0 (lo - start))
                         (min (fragment_size (content child)) (hi - start))
                         f (nodeStart + start) u')
              else u')
       else s)"
    define t1 where "t1 =
      (if pos + nodeSize child > lo then
         (case g child (nodeStart + pos) t of
            (descend, u') \<Rightarrow>
              if descend \<and> fragment_size (content child) \<noteq> 0
              then (let start = pos + 1
                    in nodesBetween (content child) 0 (max 0 (lo - start))
                         (min (fragment_size (content child)) (hi - start))
                         g (nodeStart + start) u')
              else u')
       else t)"
    have step: "fst (f n p s) = fst (g n p t) \<and> R (snd (f n p s)) (snd (g n p t))"
      if mem: "n \<in> (\<Union>x\<in>set (content child). set (subnodes x))" and Rst: "R s t" for n p s t
    proof -
      obtain c where "c \<in> set (content child)" "n \<in> set (subnodes c)"
        using mem by auto
      then have "n \<in> set (subnodes child)"
        using subnodes_content by blast
      then show ?thesis
        using "2.prems"(1) Rst by simp
    qed
    have "R s1 t1"
    proof (cases "pos + nodeSize child > lo")
      case False
      then show ?thesis using "2.prems"(2) by (simp add: s1_def t1_def)
    next
      case gt: True
      obtain d s' where f: "f child (nodeStart + pos) s = (d, s')"
        by (cases "f child (nodeStart + pos) s")
      obtain d' t' where g: "g child (nodeStart + pos) t = (d', t')"
        by (cases "g child (nodeStart + pos) t")
      have st: "d = d' \<and> R s' t'"
        using "2.prems"(1) [of child s t "nodeStart + pos"] "2.prems"(2) subnodes_self [of child] f g
        by simp
      show ?thesis
      proof (cases "d \<and> fragment_size (content child) \<noteq> 0")
        case False
        then show ?thesis using gt f g st by (auto simp: s1_def t1_def)
      next
        case True
        have "R (nodesBetween (content child) 0 (max 0 (lo - (pos + 1)))
                 (min (fragment_size (content child)) (hi - (pos + 1))) f (nodeStart + (pos + 1)) s')
                (nodesBetween (content child) 0 (max 0 (lo - (pos + 1)))
                 (min (fragment_size (content child)) (hi - (pos + 1))) g (nodeStart + (pos + 1)) t')"
          using \<open>pos < hi\<close> gt f True step st
          by (intro "2.IH"(1) [where x = "pos + nodeSize child" and xa = d and y = s']) auto
        then show ?thesis using gt f g st True by (simp add: s1_def t1_def Let_def)
      qed
    qed
    moreover have "\<And>n p s t. n \<in> (\<Union>x\<in>set rest. set (subnodes x)) \<Longrightarrow> R s t \<Longrightarrow>
        fst (f n p s) = fst (g n p t) \<and> R (snd (f n p s)) (snd (g n p t))"
      using "2.prems"(1) by auto
    ultimately have "R (nodesBetween rest (pos + nodeSize child) lo hi f nodeStart s1)
        (nodesBetween rest (pos + nodeSize child) lo hi g nodeStart t1)"
      using True by (intro "2.IH"(2)) (auto simp: s1_def)
    then show ?thesis
      using True by (simp add: s1_def t1_def Let_def)
  qed
qed

lemma wf_nodeSize_pos: "wf_node n \<Longrightarrow> 0 < nodeSize n"
  using fragment_size_nonneg [of "content n"]
  by (cases n) (auto simp: fragment_size_def)

lemma wf_fragment_size_pos: "list_all wf_node xs \<Longrightarrow> xs \<noteq> [] \<Longrightarrow> 0 < fragment_size xs"
  using wf_nodeSize_pos [of "hd xs"] fragment_size_nonneg [of "tl xs"]
  by (cases xs) auto

lemma wf_content: "wf_node n \<Longrightarrow> list_all wf_node (content n)"
  by (cases n) auto

lemma wf_nodeSize_content: "wf_node n \<Longrightarrow> content n \<noteq> [] \<Longrightarrow> nodeSize n = 2 + fragment_size (content n)"
  by (cases n) (auto simp: fragment_size_def)

lemma reached_unfold:
  "reached d n = n # (if d n \<and> content n \<noteq> [] then concat (map (reached d) (content n)) else [])"
  by (cases n) auto

lemma reached_all: "reached (\<lambda>n. True) n = subnodes n"
  by (induction n) (auto intro: arg_cong [where f = concat])

text \<open>On a tree ProseMirror can hold, a walk over a whole fragment calls the callback on
  exactly the nodes \<open>reached\<close> lists, in that order: for a callback that descends below the nodes
  satisfying \<open>d\<close> and appends \<open>g n\<close> to the state at the node \<open>n\<close>, the final state is the
  initial one followed by what \<open>g\<close> gives at these nodes.\<close>

lemma nodesBetween_reached:
  "(\<And>n p s. f n p s = (d n, s @ g n)) \<Longrightarrow> list_all wf_node xs \<Longrightarrow> lo \<le> pos \<Longrightarrow>
   pos + fragment_size xs \<le> hi \<Longrightarrow>
   nodesBetween xs pos lo hi f nodeStart s = s @ concat (map g (concat (map (reached d) xs)))"
proof (induction xs pos lo hi f nodeStart s rule: nodesBetween.induct)
  case (1 pos lo hi f nodeStart s)
  then show ?case by simp
next
  case (2 child rest pos lo hi f nodeStart s)
  have f: "f n p s = (d n, s @ g n)" for n p s
    by (rule "2.prems"(1))
  have wf: "wf_node child" "list_all wf_node rest"
    using "2.prems"(2) by simp_all
  have sz: "0 < nodeSize child" "0 \<le> fragment_size rest"
    using wf(1) by (simp_all add: wf_nodeSize_pos fragment_size_nonneg)
  have lt: "pos < hi" and gt: "lo < pos + nodeSize child"
    and fits: "pos + nodeSize child + fragment_size rest \<le> hi"
    using "2.prems"(3,4) sz by simp_all
  define s1 where "s1 = s @ concat (map g (reached d child))"
  have inner: "(if d child \<and> fragment_size (content child) \<noteq> 0
       then nodesBetween (content child) 0 (max 0 (lo - (pos + 1)))
              (min (fragment_size (content child)) (hi - (pos + 1))) f (nodeStart + (pos + 1))
              (s @ g child)
       else s @ g child) = s1"
  proof (cases "d child \<and> fragment_size (content child) \<noteq> 0")
    case True
    then have ne: "content child \<noteq> []"
      by auto
    have size: "nodeSize child = 2 + fragment_size (content child)"
      using wf(1) ne by (rule wf_nodeSize_content)
    have lo': "max 0 (lo - (pos + 1)) \<le> 0"
      using "2.prems"(3) by simp
    have hi': "0 + fragment_size (content child) \<le> min (fragment_size (content child)) (hi - (pos + 1))"
      using fits sz(2) size by simp
    have "nodesBetween (content child) 0 (max 0 (lo - (pos + 1)))
            (min (fragment_size (content child)) (hi - (pos + 1))) f (nodeStart + (pos + 1))
            (s @ g child) =
          (s @ g child) @ concat (map g (concat (map (reached d) (content child))))"
      using lt gt True f lo' hi' wf_content [OF wf(1)]
      by (intro "2.IH"(1) [where x = "pos + nodeSize child" and xa = "d child" and y = "s @ g child"]) auto
    moreover have "reached d child = child # concat (map (reached d) (content child))"
      using True ne by (subst reached_unfold) simp
    ultimately show ?thesis
      using True by (simp add: s1_def)
  next
    case False
    have "reached d child = [child]"
    proof (cases "d child")
      case True
      with False have "fragment_size (content child) = 0"
        by simp
      then have "content child = []"
        using wf_fragment_size_pos [OF wf_content [OF wf(1)]] by auto
      then show ?thesis
        by (subst reached_unfold) simp
    next
      case False
      then show ?thesis
        by (subst reached_unfold) simp
    qed
    then show ?thesis
      unfolding s1_def if_not_P [OF False] by simp
  qed
  have "nodesBetween rest (pos + nodeSize child) lo hi f nodeStart s1 =
      s1 @ concat (map g (concat (map (reached d) rest)))"
    using lt gt f wf(2) "2.prems"(3) sz fits inner
    by (intro "2.IH"(2) [where x = "pos + nodeSize child"]) (auto simp: Let_def)
  moreover have "f child (nodeStart + pos) s = (d child, s @ g child)"
    by (rule f)
  ultimately show ?case
    using lt gt inner by (auto simp: Let_def s1_def split: if_splits)
qed

lemma comments_foldl:
  "foldl (\<lambda>comments m. if mark_name m = ''comment'' then comments @ [g m] else comments) cs ms =
     cs @ map g (filter (\<lambda>m. mark_name m = ''comment'') ms)"
  by (induction ms arbitrary: cs) auto

lemma tasks_foldl: "foldl (\<lambda>tasks listItem. tasks @ [g listItem]) ts items = ts @ map g items"
  by (induction items arbitrary: ts) auto

section \<open>Scanning and cutting\<close>

lemma toPlainText_Text: "toPlainText (Text ms t) schema = []"
  by (simp add: toPlainText_def textBetween_def)

lemma empty_block_Text: "is_empty_block schema (Text ms t)"
  by (simp add: is_empty_block_def toPlainText_Text js_trim_def)

lemma nonempty_block_size: "\<not> is_empty_block schema n \<Longrightarrow> 0 < nodeSize n"
  using fragment_size_nonneg [of "content n"]
  by (cases n) (auto simp: empty_block_Text fragment_size_def)

lemma trim_scan_start_append:
  "content doc = xs @ ys \<Longrightarrow>
   trim_scan_start schema doc (int (length xs)) s =
     (int (length xs + length (takeWhile (is_empty_block schema) ys)) + 1,
      s + fragment_size (takeWhile (is_empty_block schema) ys),
      takeWhile (is_empty_block schema) ys = ys)"
proof (induction ys arbitrary: xs s)
  case Nil
  then show ?case
    by (subst trim_scan_start.simps) (simp add: maybeChild_def childCount_def)
next
  case (Cons y ys)
  then have c: "content doc = (xs @ [y]) @ ys"
    by simp
  have m: "maybeChild doc (int (length xs)) = Some y"
    using Cons.prems by (simp add: maybeChild_def childCount_def)
  have step: "trim_scan_start schema doc (int (length xs)) s =
      (if is_empty_block schema y
       then trim_scan_start schema doc (int (length xs) + 1) (s + nodeSize y)
       else (int (length xs) + 1, s, False))"
    by (subst trim_scan_start.simps) (simp add: m Let_def is_empty_block_def)
  have idx: "int (length xs) + 1 = int (length (xs @ [y]))"
    by simp
  show ?case
    unfolding step idx Cons.IH [OF c] by (simp add: add.assoc)
qed

lemma trim_scan_end_append:
  "content doc = xs @ ys \<Longrightarrow>
   trim_scan_end schema doc (int (length xs) - 1) e =
     (int (length xs) - int (length (takeWhile (is_empty_block schema) (rev xs))) - 2,
      e - fragment_size (takeWhile (is_empty_block schema) (rev xs)),
      takeWhile (is_empty_block schema) (rev xs) = rev xs)"
proof (induction xs arbitrary: ys e rule: rev_induct)
  case Nil
  then show ?case
    by (subst trim_scan_end.simps) (simp add: maybeChild_def childCount_def)
next
  case (snoc x xs)
  then have c: "content doc = xs @ (x # ys)"
    by simp
  have m: "maybeChild doc (int (length xs)) = Some x"
    using snoc.prems by (simp add: maybeChild_def childCount_def nth_append)
  have step: "trim_scan_end schema doc (int (length xs)) e =
      (if is_empty_block schema x
       then trim_scan_end schema doc (int (length xs) - 1) (e - nodeSize x)
       else (int (length xs) - 1, e, False))"
    by (subst trim_scan_end.simps) (simp add: m Let_def is_empty_block_def)
  have idx: "int (length (xs @ [x])) - 1 = int (length xs)"
    by simp
  show ?case
    unfolding idx step snoc.IH [OF c] by simp
qed

lemma cut_loop_done: "to \<le> pos \<Longrightarrow> Fragment_cut_loop xs pos lo to = []"
  by (cases xs) auto

lemma cut_loop_skip:
  "lo < hi \<Longrightarrow> pos + fragment_size A \<le> lo \<Longrightarrow>
   Fragment_cut_loop (A @ R) pos lo hi = Fragment_cut_loop R (pos + fragment_size A) lo hi"
proof (induction A arbitrary: pos)
  case Nil
  then show ?case by simp
next
  case (Cons x A)
  have "0 \<le> nodeSize x" "0 \<le> fragment_size A"
    by (rule nodeSize_nonneg, rule fragment_size_nonneg)
  with Cons.prems have "pos < hi" "\<not> lo < pos + nodeSize x" "pos + nodeSize x + fragment_size A \<le> lo"
    by auto
  with Cons.IH [of "pos + nodeSize x"] Cons.prems(1) show ?case
    by (simp add: Let_def add.assoc)
qed

lemma cut_loop_take:
  "lo \<le> pos \<Longrightarrow> pos + fragment_size B = hi \<Longrightarrow> B \<noteq> [] \<Longrightarrow> 0 < nodeSize (last B) \<Longrightarrow>
   lo < pos \<or> 0 < nodeSize (hd B) \<Longrightarrow>
   Fragment_cut_loop (B @ C) pos lo hi = B"
proof (induction B arbitrary: pos)
  case Nil
  then show ?case by simp
next
  case (Cons x B)
  have nn: "0 \<le> nodeSize x" "0 \<le> fragment_size B"
    by (rule nodeSize_nonneg, rule fragment_size_nonneg)
  have lt: "pos < hi"
  proof (cases "B = []")
    case True
    with Cons.prems show ?thesis by auto
  next
    case False
    with Cons.prems fragment_size_last [of B] nn show ?thesis by auto
  qed
  have gt: "lo < pos + nodeSize x"
    using Cons.prems nn by auto
  have le: "\<not> hi < pos + nodeSize x"
    using Cons.prems nn by auto
  have rest: "Fragment_cut_loop (B @ C) (pos + nodeSize x) lo hi = B"
  proof (cases "B = []")
    case True
    with Cons.prems show ?thesis by (simp add: cut_loop_done)
  next
    case False
    with Cons.prems gt show ?thesis
      by (intro Cons.IH) auto
  qed
  show ?case
    using lt gt le rest Cons.prems(1) by (simp add: Let_def)
qed

lemma trim_eq:
  assumes "1 < childCount doc"
  shows "trim schema doc =
     cut doc (fragment_size (takeWhile (is_empty_block schema) (content doc)))
       (nodeSize doc - 2 - fragment_size (takeWhile (is_empty_block schema) (rev (content doc))))"
proof -
  have s: "trim_scan_start schema doc 0 0 =
      (int (length (takeWhile (is_empty_block schema) (content doc))) + 1,
       fragment_size (takeWhile (is_empty_block schema) (content doc)),
       takeWhile (is_empty_block schema) (content doc) = content doc)"
    using trim_scan_start_append [of doc "[]" "content doc" schema 0] by simp
  have e: "trim_scan_end schema doc (childCount doc - 1) (nodeSize doc - 2) =
      (childCount doc - int (length (takeWhile (is_empty_block schema) (rev (content doc)))) - 2,
       nodeSize doc - 2 - fragment_size (takeWhile (is_empty_block schema) (rev (content doc))),
       takeWhile (is_empty_block schema) (rev (content doc)) = rev (content doc))"
    using trim_scan_end_append [of doc "content doc" "[]" schema "nodeSize doc - 2"]
    by (simp add: childCount_def)
  show ?thesis
    using assms by (simp add: trim_def Let_def s e)
qed


lemma trim_small: "childCount doc \<le> 1 \<Longrightarrow> trim schema doc = doc"
  by (simp add: trim_def Let_def)

lemma trim_leaf:
  assumes "1 < childCount (Node ty a cs ms)" and "contentMatch_empty ty"
  shows "trim schema (Node ty a cs ms) = Node ty a [] ms"
proof -
  have "0 \<le> fragment_size (takeWhile (is_empty_block schema) cs)"
       "0 \<le> fragment_size (takeWhile (is_empty_block schema) (rev cs))"
       "0 \<le> fragment_size cs"
    by (rule fragment_size_nonneg)+
  then show ?thesis
    using assms by (simp add: trim_eq)
qed

lemma trim_Node:
  assumes "1 < childCount (Node ty a cs ms)" and "\<not> contentMatch_empty ty"
  shows "trim schema (Node ty a cs ms) =
     cut (Node ty a cs ms) (fragment_size (takeWhile (is_empty_block schema) cs))
       (fragment_size cs - fragment_size (takeWhile (is_empty_block schema) (rev cs)))"
  using trim_eq [OF assms(1), of schema] assms(2)
  by (simp add: fragment_size_def del: cut.simps)

lemma trim_all_empty:
  assumes "1 < childCount (Node ty a cs ms)" and "\<not> contentMatch_empty ty"
    and "\<forall>c\<in>set cs. is_empty_block schema c"
  shows "trim schema (Node ty a cs ms) = cut (Node ty a cs ms) (fragment_size cs) 0"
proof -
  have tw: "takeWhile (is_empty_block schema) cs = cs"
       "takeWhile (is_empty_block schema) (rev cs) = rev cs"
    using assms(3) by (simp_all add: takeWhile_eq_all_conv)
  show ?thesis
    unfolding trim_Node [OF assms(1,2)] tw fragment_size_rev by (simp del: cut.simps)
qed

lemma cut_degenerate:
  "cut (Node ty a cs ms) (fragment_size cs) 0 =
     (if fragment_size cs = 0 then Node ty a cs ms else Node ty a [] ms)"
  using fragment_size_nonneg [of cs] by auto

lemma trim_middle:
  assumes "1 < childCount (Node ty a cs ms)" and "\<not> contentMatch_empty ty"
    and "\<not> (\<forall>c\<in>set cs. is_empty_block schema c)"
  defines "B \<equiv> rev (dropWhile (is_empty_block schema) (rev (dropWhile (is_empty_block schema) cs)))"
  shows "B \<noteq> [] \<and> \<not> is_empty_block schema (hd B) \<and> \<not> is_empty_block schema (last B) \<and>
    (trim schema (Node ty a cs ms) = Node ty a cs ms \<or> trim schema (Node ty a cs ms) = Node ty a B ms)"
proof -
  let ?E = "is_empty_block schema"
  let ?A = "takeWhile ?E cs"
  let ?R = "dropWhile ?E cs"
  let ?C = "rev (takeWhile ?E (rev ?R))"
  have R: "?R \<noteq> []"
    using assms(3) by (simp add: dropWhile_eq_Nil_conv)
  then have hdR: "\<not> ?E (hd ?R)"
    by (rule hd_dropWhile)
  have "hd ?R \<in> set (rev ?R)"
    using R by simp
  with hdR have ex: "\<exists>x\<in>set (rev ?R). \<not> ?E x"
    by blast
  then have D: "dropWhile ?E (rev ?R) \<noteq> []"
    by (simp add: dropWhile_eq_Nil_conv)
  then have B: "B \<noteq> []"
    by (simp add: B_def)
  have lastB: "\<not> ?E (last B)"
    using hd_dropWhile [OF D] D by (simp add: B_def last_rev)
  have split: "?R = B @ ?C"
  proof -
    have "?R = rev (takeWhile ?E (rev ?R) @ dropWhile ?E (rev ?R))"
      by (simp only: takeWhile_dropWhile_id rev_rev_ident)
    then show ?thesis
      by (simp only: rev_append B_def)
  qed
  have hdB: "\<not> ?E (hd B)"
    using hdR split B by (metis hd_append2)
  have cs: "cs = ?A @ B @ ?C"
    using split by (metis takeWhile_dropWhile_id)
  have tw: "takeWhile ?E (rev cs) = rev ?C"
  proof -
    obtain x where "x \<in> set (rev ?R)" "\<not> ?E x"
      using ex by blast
    then have "takeWhile ?E (rev ?R @ rev ?A) = takeWhile ?E (rev ?R)"
      by (rule takeWhile_append1)
    moreover have "rev cs = rev ?R @ rev ?A"
      by (metis rev_append takeWhile_dropWhile_id)
    ultimately show ?thesis
      by simp
  qed
  have size: "fragment_size cs = fragment_size ?A + fragment_size B + fragment_size ?C"
    by (subst cs) (simp only: fragment_size_append add.assoc)
  have posB: "0 < nodeSize (hd B)" "0 < nodeSize (last B)"
    using hdB lastB by (auto intro: nonempty_block_size)
  have t: "trim schema (Node ty a cs ms) =
      cut (Node ty a cs ms) (fragment_size ?A) (fragment_size ?A + fragment_size B)"
    using trim_Node [OF assms(1,2), of schema] size by (simp add: tw del: cut.simps)
  have lt: "fragment_size ?A < fragment_size ?A + fragment_size B"
    using posB(2) fragment_size_last [OF B] by simp
  have loop: "Fragment_cut_loop cs 0 (fragment_size ?A) (fragment_size ?A + fragment_size B) = B"
  proof -
    have "Fragment_cut_loop (?A @ (B @ ?C)) 0 (fragment_size ?A) (fragment_size ?A + fragment_size B) =
        Fragment_cut_loop (B @ ?C) (0 + fragment_size ?A) (fragment_size ?A) (fragment_size ?A + fragment_size B)"
      using lt by (intro cut_loop_skip) simp_all
    also have "\<dots> = B"
      using B posB by (intro cut_loop_take) simp_all
    finally show ?thesis
      using cs by simp
  qed
  have "cut (Node ty a cs ms) (fragment_size ?A) (fragment_size ?A + fragment_size B) = Node ty a cs ms \<or>
      cut (Node ty a cs ms) (fragment_size ?A) (fragment_size ?A + fragment_size B) = Node ty a B ms"
    using lt loop by simp
  with t B hdB lastB show ?thesis
    by simp
qed

lemma trim_fixed:
  assumes "\<not> contentMatch_empty ty" and "B \<noteq> []"
    and "\<not> is_empty_block schema (hd B)" and "\<not> is_empty_block schema (last B)"
  shows "trim schema (Node ty a B ms) = Node ty a B ms"
proof (cases "childCount (Node ty a B ms) \<le> 1")
  case True
  then show ?thesis by (rule trim_small)
next
  case False
  have "takeWhile (is_empty_block schema) B = []"
    using assms(2,3) by (cases B) auto
  moreover have "takeWhile (is_empty_block schema) (rev B) = []"
    using assms(2,4) by (cases "rev B") (auto simp: hd_rev [symmetric])
  ultimately show ?thesis
    using False assms(1) by (simp add: trim_eq fragment_size_def)
qed

section \<open>Trim\<close>

text \<open>Claim C3. Trim is idempotent: for every document \<open>D\<close> (and every schema),
  trimming the trimmed document returns the trimmed document.\<close>

theorem trim_idempotent: "trim schema (trim schema doc) = trim schema doc"
proof (cases "childCount doc \<le> 1")
  case True
  then show ?thesis by (simp add: trim_small)
next
  case False
  then obtain ty a cs ms where doc: "doc = Node ty a cs ms"
    by (cases doc) (auto simp: childCount_def)
  have many: "1 < childCount (Node ty a cs ms)"
    using False doc by simp
  have nil: "trim schema (Node ty a [] ms) = Node ty a [] ms"
    by (simp add: trim_small childCount_def)
  show ?thesis
  proof (cases "contentMatch_empty ty")
    case True
    then show ?thesis
      using trim_leaf [OF many True] nil doc by simp
  next
    case nonleaf: False
    show ?thesis
    proof (cases "\<forall>c\<in>set cs. is_empty_block schema c")
      case True
      have "trim schema doc = doc \<or> trim schema doc = Node ty a [] ms"
        unfolding doc trim_all_empty [OF many nonleaf True] cut_degenerate by simp
      then show ?thesis
        using nil by auto
    next
      case False
      let ?B = "rev (dropWhile (is_empty_block schema) (rev (dropWhile (is_empty_block schema) cs)))"
      note m = trim_middle [OF many nonleaf False]
      from m have "trim schema doc = doc \<or> trim schema doc = Node ty a ?B ms"
        using doc by simp
      moreover have "trim schema (Node ty a ?B ms) = Node ty a ?B ms"
        using m nonleaf by (intro trim_fixed) simp_all
      ultimately show ?thesis
        by auto
    qed
  qed
qed

theorem trim_idempotent_witness:
  "trim plain_schema (trim plain_schema hello_doc) = trim plain_schema hello_doc \<and>
   trim plain_schema hello_doc = Node doc_type [] [para ''Hello''] []"
proof -
  have "trim plain_schema hello_doc = Node doc_type [] [para ''Hello''] []"
    by code_simp
  then show ?thesis
    using trim_idempotent [of plain_schema hello_doc] by simp
qed

text \<open>Claim C7. For every document with at most one top-level child, \<open>trim\<close> returns the
  input document unchanged: it neither fails nor slices.\<close>

theorem trim_degenerate_unchanged: "childCount doc \<le> 1 \<Longrightarrow> trim schema doc = doc"
  by (simp add: trim_def Let_def)

theorem trim_degenerate_unchanged_witness:
  "childCount empty_doc_node \<le> 1 \<and> trim plain_schema empty_doc_node = empty_doc_node"
proof -
  have h: "childCount empty_doc_node \<le> 1"
    by (simp add: childCount_def empty_doc_node_def)
  show ?thesis
    using h trim_degenerate_unchanged [OF h, of plain_schema] by simp
qed

text \<open>Claim C8. For every document with at least two top-level children, all of whose plain
  text trims to the empty string, \<open>trim\<close> has no special case: both scans run to exhaustion
  (they leave their loops with the flag still true, the forward index one past the child count
  and the backward index at \<open>-2\<close>), the start offset is the sum of the children's node sizes,
  the end offset is 0, and the result is \<open>doc.cut(start, 0)\<close> with start greater than end,
  which is the document without children. The document is one ProseMirror can hold: it is not
  of a leaf type, and every child takes at least one position (ProseMirror has no empty text
  nodes).\<close>

theorem trim_all_empty_degenerate:
  assumes "2 \<le> childCount doc"
    and "\<forall>c\<in>set (content doc). js_trim (toPlainText c schema) = []"
    and "\<not> isLeaf doc"
    and "\<forall>c\<in>set (content doc). 0 < nodeSize c"
  shows "trim_scan_start schema doc 0 0 = (childCount doc + 1, fragment_size (content doc), True) \<and>
    trim_scan_end schema doc (childCount doc - 1) (nodeSize doc - 2) = (- 2, 0, True) \<and>
    trim schema doc = cut doc (fragment_size (content doc)) 0 \<and>
    0 < fragment_size (content doc) \<and>
    trim schema doc = Node (ntype doc) (attrs doc) [] (marks doc)"
proof -
  obtain ty a cs ms where doc: "doc = Node ty a cs ms"
    using assms(1) by (cases doc) (auto simp: childCount_def)
  have E: "\<forall>c\<in>set cs. is_empty_block schema c"
    using assms(2) by (simp add: doc is_empty_block_def)
  have tw: "takeWhile (is_empty_block schema) cs = cs"
       "takeWhile (is_empty_block schema) (rev cs) = rev cs"
    using E by (simp_all add: takeWhile_eq_all_conv)
  have nonleaf: "\<not> contentMatch_empty ty"
    using assms(3) by (simp add: doc isLeaf_def)
  have size: "nodeSize doc - 2 = fragment_size cs"
    using nonleaf by (simp add: doc fragment_size_def)
  have "cs \<noteq> []"
    using assms(1) by (auto simp: doc childCount_def)
  then have "0 < nodeSize (last cs)"
    using assms(4) by (simp add: doc)
  then have pos: "0 < fragment_size cs"
    using fragment_size_last [OF \<open>cs \<noteq> []\<close>] by simp
  have s: "trim_scan_start schema doc 0 0 = (childCount doc + 1, fragment_size cs, True)"
    using trim_scan_start_append [of doc "[]" cs schema 0]
    by (simp add: doc tw childCount_def)
  have e: "trim_scan_end schema doc (childCount doc - 1) (nodeSize doc - 2) = (- 2, 0, True)"
    using trim_scan_end_append [of doc cs "[]" schema "nodeSize doc - 2"]
    unfolding size by (simp add: doc tw childCount_def)
  have many: "1 < childCount (Node ty a cs ms)"
    using assms(1) by (simp add: doc)
  have t: "trim schema doc = cut doc (fragment_size cs) 0"
    unfolding doc by (rule trim_all_empty [OF many nonleaf E])
  have "cut doc (fragment_size cs) 0 = Node ty a [] ms"
    unfolding doc cut_degenerate using pos by simp
  then show ?thesis
    using s e t pos by (simp add: doc)
qed

theorem trim_all_empty_degenerate_witness:
  "trim_scan_start plain_schema blank_doc 0 0 = (3, 5, True) \<and>
   trim_scan_end plain_schema blank_doc 1 5 = (- 2, 0, True) \<and>
   trim plain_schema blank_doc = cut blank_doc 5 0 \<and>
   trim plain_schema blank_doc = Node doc_type [] [] []"
proof -
  have c: "2 \<le> childCount blank_doc"
    by (simp add: blank_doc_def childCount_def)
  have e: "\<forall>c\<in>set (content blank_doc). js_trim (toPlainText c plain_schema) = []"
    by code_simp
  have l: "\<not> isLeaf blank_doc"
    by (simp add: blank_doc_def isLeaf_def doc_type_def)
  have p: "\<forall>c\<in>set (content blank_doc). 0 < nodeSize c"
    by (simp add: blank_doc_def para_def paragraph_type_def)
  have v: "childCount blank_doc = 2" "fragment_size (content blank_doc) = 5" "nodeSize blank_doc = 7"
      "ntype blank_doc = doc_type" "attrs blank_doc = []" "marks blank_doc = []"
    by (simp_all add: blank_doc_def childCount_def fragment_size_def para_def paragraph_type_def doc_type_def)
  note r = trim_all_empty_degenerate [OF c e l p, unfolded v]
  have "trim_scan_start plain_schema blank_doc 0 0 = (3, 5, True)"
    using r by simp
  moreover have "trim_scan_end plain_schema blank_doc 1 5 = (- 2, 0, True)"
    using r by simp
  moreover have "trim plain_schema blank_doc = cut blank_doc 5 0"
    using r by blast
  moreover have "trim plain_schema blank_doc = Node doc_type [] [] []"
    using r by blast
  ultimately show ?thesis
    by blast
qed

section \<open>Tasks\<close>

text \<open>On a tree ProseMirror can hold, \<open>getTasks\<close> returns one task for each item of each
  checklist, in document order, built from that item.\<close>

lemma getTasks_exact:
  assumes "wf_node doc"
  shows "getTasks schema doc =
    map (\<lambda>listItem.
           \<lparr>text'' = foldl (\<lambda>text contentNode.
                              if type_name contentNode = ''paragraph''
                              then text @ textContent schema contentNode
                              else text)
                       [] (content listItem),
            completed = js_get (attrs listItem) ''checked''\<rparr>)
      (checklist_items doc)"
proof -
  let ?task = "\<lambda>listItem.
           \<lparr>text'' = foldl (\<lambda>text contentNode.
                              if type_name contentNode = ''paragraph''
                              then text @ textContent schema contentNode
                              else text)
                       [] (content listItem),
            completed = js_get (attrs listItem) ''checked''\<rparr>"
  let ?g = "\<lambda>n. if isBlock n \<and> type_name n = ''checkbox_list'' then map ?task (content n) else []"
  have "getTasks schema doc = [] @ concat (map ?g (concat (map (reached isBlock) (content doc))))"
    unfolding getTasks_def descendants_def
  proof (rule nodesBetween_reached [where d = isBlock and g = ?g], goal_cases)
    case (1 n p s)
    show ?case by (simp add: tasks_foldl Let_def)
  next
    case 2
    show ?case using assms by (rule wf_content)
  next
    case 3
    show ?case by simp
  next
    case 4
    show ?case by simp
  qed
  moreover have "concat (map ?g xs) =
      map ?task (concat (map content (filter (\<lambda>n. isBlock n \<and> type_name n = ''checkbox_list'') xs)))"
    for xs
    by (induction xs) auto
  ultimately show ?thesis
    by (simp add: checklist_items_def)
qed

lemma getTasks_sound:
  "\<forall>t\<in>set (getTasks schema doc).
     \<exists>l\<in>set (concat (map subnodes (content doc))). \<exists>item\<in>set (content l).
       type_name l = ''checkbox_list'' \<and>
       completed t = (case map_of (attrs item) ''checked'' of None \<Rightarrow> JUndefined | Some v \<Rightarrow> v)"
proof -
  let ?P = "\<lambda>ts. \<forall>t\<in>set ts.
     \<exists>l\<in>set (concat (map subnodes (content doc))). \<exists>item\<in>set (content l).
       type_name l = ''checkbox_list'' \<and>
       completed t = (case map_of (attrs item) ''checked'' of None \<Rightarrow> JUndefined | Some v \<Rightarrow> v)"
  have "?P (nodesBetween (content doc) 0 0 (fragment_size (content doc))
       (\<lambda>n pos tasks.
          if \<not> isBlock n then (False, tasks)
          else (True,
                if type_name n = ''checkbox_list''
                then foldl (\<lambda>tasks listItem.
                              let text = foldl (\<lambda>text contentNode.
                                                  if type_name contentNode = ''paragraph''
                                                  then text @ textContent schema contentNode
                                                  else text)
                                           [] (content listItem)
                              in tasks @ [\<lparr>text'' = text, completed = js_get (attrs listItem) ''checked''\<rparr>])
                       tasks (content n)
                else tasks)) 0 [])"
  proof (rule nodesBetween_invariant [where P = ?P], goal_cases)
    case (1 n p s)
    have mem: "n \<in> set (concat (map subnodes (content doc)))"
      using 1(1) by simp
    have new: "\<exists>l\<in>set (concat (map subnodes (content doc))). \<exists>item\<in>set (content l).
        type_name l = ''checkbox_list'' \<and>
        js_get (attrs listItem) ''checked'' =
          (case map_of (attrs item) ''checked'' of None \<Rightarrow> JUndefined | Some v \<Rightarrow> v)"
      if "listItem \<in> set (content n)" and "type_name n = ''checkbox_list''" for listItem
      using mem that by (intro bexI [of _ n] bexI [of _ listItem]) (simp_all add: js_get_def)
    show ?case
      using 1(2) new unfolding Let_def tasks_foldl by auto
  next
    case 2
    show ?case by simp
  qed
  then show ?thesis
    by (simp only: getTasks_def descendants_def)
qed

text \<open>Claim C5, as amended. For every document \<open>D\<close>, the total of \<open>getTasksSummary D\<close> is the
  length of \<open>getTasks D\<close>, and its completed count is the number of entries of \<open>getTasks D\<close>
  whose completed field is truthy, which is what the filter of \<open>getTasksSummary\<close> keeps; when
  every completed field is a boolean, it is the number of entries whose field is true.\<close>

theorem tasks_summary_consistent:
  "total (getTasksSummary schema doc) = length (getTasks schema doc) \<and>
   summary_completed (getTasksSummary schema doc) =
     length (filter (\<lambda>t. truthy (completed t)) (getTasks schema doc)) \<and>
   ((\<forall>t\<in>set (getTasks schema doc). \<exists>b. completed t = JBool b) \<longrightarrow>
    summary_completed (getTasksSummary schema doc) =
      length (filter (\<lambda>t. completed t = JBool True) (getTasks schema doc)))"
proof -
  have "(\<forall>t\<in>set ts. \<exists>b. completed t = JBool b) \<Longrightarrow>
      filter (\<lambda>t. truthy (completed t)) ts = filter (\<lambda>t. completed t = JBool True) ts"
    for ts :: "Task list"
    by (rule filter_cong) auto
  then show ?thesis
    by (auto simp: getTasksSummary_def Let_def)
qed

theorem tasks_summary_consistent_witness:
  "map completed (getTasks plain_schema tasks_doc) = [JBool True, JBool False] \<and>
   total (getTasksSummary plain_schema tasks_doc) = 2 \<and>
   summary_completed (getTasksSummary plain_schema tasks_doc) = 1"
proof -
  have e: "map completed (getTasks plain_schema tasks_doc) = [JBool True, JBool False]"
    by code_simp
  have l: "length (getTasks plain_schema tasks_doc) = length (map completed (getTasks plain_schema tasks_doc))"
    by simp
  have f: "length (filter (\<lambda>t. completed t = JBool True) (getTasks plain_schema tasks_doc)) =
      length (filter (\<lambda>v. v = JBool True) (map completed (getTasks plain_schema tasks_doc)))"
    by (simp add: filter_map comp_def)
  have b: "\<forall>t\<in>set (getTasks plain_schema tasks_doc). \<exists>b. completed t = JBool b"
  proof
    fix t
    assume "t \<in> set (getTasks plain_schema tasks_doc)"
    then have "completed t \<in> set (map completed (getTasks plain_schema tasks_doc))"
      by simp
    then show "\<exists>b. completed t = JBool b"
      unfolding e by auto
  qed
  show ?thesis
    using tasks_summary_consistent [of plain_schema tasks_doc] b
    unfolding l f e by simp
qed

text \<open>Claim C5 as stated fails where a completed field is truthy without being true: the
  \<open>checked\<close> attribute is passed on as it is, and the filter of \<open>getTasksSummary\<close> tests
  truthiness. Of three items checked with true, 1 and the string yes, the summary counts
  three, and one has the field true.\<close>

theorem tasks_summary_truthy_counterexample:
  "summary_completed (getTasksSummary plain_schema truthy_tasks_doc) = 3 \<and>
   length (filter (\<lambda>t. completed t = JBool True) (getTasks plain_schema truthy_tasks_doc)) = 1"
  by code_simp

text \<open>Claim C10. The completed field of every task returned by \<open>getTasks\<close> is the \<open>checked\<close>
  attribute of the task's own checklist item, taken as it is, without coercion or default:
  the tasks are those of the checklist items of the document, one for each in document order,
  and the field is the attribute's value when the item has one and the undefined value (not
  false) when the item's attributes have no \<open>checked\<close> key. The first part is for the trees
  ProseMirror can hold; on every tree, each task has its field from some item of some
  checklist.\<close>

theorem task_completed_verbatim:
  "(wf_node doc \<longrightarrow>
    map completed (getTasks schema doc) =
      map (\<lambda>item. case map_of (attrs item) ''checked'' of None \<Rightarrow> JUndefined | Some v \<Rightarrow> v)
        (checklist_items doc)) \<and>
   (\<forall>t\<in>set (getTasks schema doc).
     \<exists>l\<in>set (concat (map subnodes (content doc))). \<exists>item\<in>set (content l).
       type_name l = ''checkbox_list'' \<and>
       completed t = (case map_of (attrs item) ''checked'' of None \<Rightarrow> JUndefined | Some v \<Rightarrow> v))"
  using getTasks_sound [of schema doc]
  by (simp add: getTasks_exact js_get_def comp_def)

theorem task_completed_verbatim_witness:
  "wf_node unchecked_doc \<and>
   map (\<lambda>item. map_of (attrs item) ''checked'') (checklist_items unchecked_doc) =
     [Some (JBool False), None] \<and>
   map completed (getTasks plain_schema unchecked_doc) = [JBool False, JUndefined]"
proof -
  have w: "wf_node unchecked_doc"
    by code_simp
  have i: "map (\<lambda>item. map_of (attrs item) ''checked'') (checklist_items unchecked_doc) =
      [Some (JBool False), None]"
    by code_simp
  have "map (\<lambda>item. case map_of (attrs item) ''checked'' of None \<Rightarrow> JUndefined | Some v \<Rightarrow> v)
          (checklist_items unchecked_doc) =
        map (\<lambda>a. case a of None \<Rightarrow> JUndefined | Some v \<Rightarrow> v)
          (map (\<lambda>item. map_of (attrs item) ''checked'') (checklist_items unchecked_doc))"
    by (simp add: comp_def)
  then have "map (\<lambda>item. case map_of (attrs item) ''checked'' of None \<Rightarrow> JUndefined | Some v \<Rightarrow> v)
          (checklist_items unchecked_doc) = [JBool False, JUndefined]"
    unfolding i by simp
  then show ?thesis
    using task_completed_verbatim [of unchecked_doc plain_schema] w i by simp
qed

section \<open>Comments\<close>

text \<open>On a tree ProseMirror can hold, \<open>getComments\<close> returns one entry for each occurrence of a
  comment mark, in document order: the mark's attributes with the text content of the node
  that carries the mark as \<open>text\<close>.\<close>

lemma getComments_exact:
  assumes "wf_node doc"
  shows "getComments schema doc =
    map (\<lambda>(n, m). AList.update ''text'' (JStr (textContent schema n)) (mark_attrs m))
      (comment_marks doc)"
proof -
  let ?g = "\<lambda>n. map (\<lambda>m. AList.update ''text'' (JStr (textContent schema n)) (mark_attrs m))
                  (filter (\<lambda>m. mark_name m = ''comment'') (marks n))"
  have "getComments schema doc =
      [] @ concat (map ?g (concat (map (reached (\<lambda>n. True)) (content doc))))"
    unfolding getComments_def descendants_def
  proof (rule nodesBetween_reached [where d = "\<lambda>n. True" and g = ?g], goal_cases)
    case (1 n p s)
    show ?case by (simp add: comments_foldl)
  next
    case 2
    show ?case using assms by (rule wf_content)
  next
    case 3
    show ?case by simp
  next
    case 4
    show ?case by simp
  qed
  then show ?thesis
    by (simp add: comment_marks_def reached_all map_concat comp_def)
qed

lemma getComments_sound:
  "\<forall>c\<in>set (getComments schema doc).
     \<exists>n\<in>set (concat (map subnodes (content doc))). \<exists>m\<in>set (marks n).
       mark_name m = ''comment'' \<and>
       map_of c ''text'' = Some (JStr (textContent schema n)) \<and>
       map_of c ''id'' = map_of (mark_attrs m) ''id'' \<and>
       map_of c ''userId'' = map_of (mark_attrs m) ''userId''"
proof -
  let ?P = "\<lambda>cs. \<forall>c\<in>set cs.
     \<exists>n\<in>set (concat (map subnodes (content doc))). \<exists>m\<in>set (marks n).
       mark_name m = ''comment'' \<and>
       map_of c ''text'' = Some (JStr (textContent schema n)) \<and>
       map_of c ''id'' = map_of (mark_attrs m) ''id'' \<and>
       map_of c ''userId'' = map_of (mark_attrs m) ''userId''"
  have "?P (nodesBetween (content doc) 0 0 (fragment_size (content doc))
       (\<lambda>n pos comments.
          (True,
           foldl (\<lambda>comments m.
                    if mark_name m = ''comment''
                    then comments @ [AList.update ''text'' (JStr (textContent schema n)) (mark_attrs m)]
                    else comments)
             comments (marks n))) 0 [])"
  proof (rule nodesBetween_invariant [where P = ?P], goal_cases)
    case (1 n p s)
    then show ?case
      unfolding comments_foldl snd_conv
      by (fastforce simp: update_conv')
  next
    case 2
    show ?case by simp
  qed
  then show ?thesis
    by (simp only: getComments_def descendants_def)
qed

text \<open>Claim C6. \<open>getComments\<close> emits one entry per occurrence of a comment mark, not one per
  distinct id. For a document with one text node, whatever marks the node carries, it returns
  one entry for each of the node's comment marks, in their order, each with the node's text
  content as its text field: two entries for two comment marks with the ids a and b, and two
  entries as well for two comment marks with the same id. For every document ProseMirror can
  hold, the number of entries is the number of occurrences of comment marks.\<close>

theorem comments_per_mark:
  "(t \<noteq> [] \<and> \<not> contentMatch_empty pty \<longrightarrow>
    getComments schema (Node dty da [Node pty pa [Text ms t] []] dm) =
      map (\<lambda>m. AList.update ''text'' (JStr t) (mark_attrs m))
        (filter (\<lambda>m. mark_name m = ''comment'') ms)) \<and>
   (wf_node doc \<longrightarrow> length (getComments schema doc) = length (comment_marks doc))"
  by (simp add: getComments_exact)
     (simp add: getComments_def descendants_def fragment_size_def Let_def textContent_def
        comments_foldl)

theorem comments_per_mark_witness:
  "getComments plain_schema comment_doc =
     [[(''id'', JStr ''a''), (''userId'', JStr ''u1''), (''text'', JStr ''hello'')],
      [(''id'', JStr ''b''), (''userId'', JStr ''u2''), (''text'', JStr ''hello'')]] \<and>
   getComments plain_schema repeated_comment_doc =
     [[(''id'', JStr ''a''), (''userId'', JStr ''u1''), (''text'', JStr ''hello'')],
      [(''id'', JStr ''a''), (''userId'', JStr ''u1''), (''text'', JStr ''hello'')]]"
proof -
  have p: "''hello'' \<noteq> [] \<and> \<not> contentMatch_empty paragraph_type"
    by (simp add: paragraph_type_def)
  note inst = comments_per_mark [of "''hello''" paragraph_type plain_schema doc_type "[]" "[]" _ "[]",
      THEN conjunct1, rule_format, OF p]
  show ?thesis
    unfolding comment_doc_def repeated_comment_doc_def by (simp add: inst)
qed

text \<open>Claim C9. In every entry returned by \<open>getComments\<close> the text field is the text content
  of the node that carries the mark, whatever the mark's own attributes say (a \<open>text\<close> key
  among them is overridden), and the fields id and userId are those of the mark's attributes
  as they are: absent in the entry when the mark has none. On the trees ProseMirror can hold
  the entries are, one for one and in order, those of the occurrences of comment marks, so a
  mark without id or userId has its entry; on every tree, each entry is that of some
  occurrence.\<close>

theorem comment_fields:
  "(wf_node doc \<longrightarrow>
    list_all2
      (\<lambda>c (n, m).
         map_of c ''text'' = Some (JStr (textContent schema n)) \<and>
         map_of c ''id'' = map_of (mark_attrs m) ''id'' \<and>
         map_of c ''userId'' = map_of (mark_attrs m) ''userId'')
      (getComments schema doc) (comment_marks doc)) \<and>
   (\<forall>c\<in>set (getComments schema doc).
     \<exists>n\<in>set (concat (map subnodes (content doc))). \<exists>m\<in>set (marks n).
       mark_name m = ''comment'' \<and>
       map_of c ''text'' = Some (JStr (textContent schema n)) \<and>
       map_of c ''id'' = map_of (mark_attrs m) ''id'' \<and>
       map_of c ''userId'' = map_of (mark_attrs m) ''userId'')"
proof (intro conjI impI)
  assume "wf_node doc"
  then show "list_all2
      (\<lambda>c (n, m).
         map_of c ''text'' = Some (JStr (textContent schema n)) \<and>
         map_of c ''id'' = map_of (mark_attrs m) ''id'' \<and>
         map_of c ''userId'' = map_of (mark_attrs m) ''userId'')
      (getComments schema doc) (comment_marks doc)"
    by (simp add: getComments_exact list_all2_map1 list_all2_same update_conv' split_beta)
next
  show "\<forall>c\<in>set (getComments schema doc).
     \<exists>n\<in>set (concat (map subnodes (content doc))). \<exists>m\<in>set (marks n).
       mark_name m = ''comment'' \<and>
       map_of c ''text'' = Some (JStr (textContent schema n)) \<and>
       map_of c ''id'' = map_of (mark_attrs m) ''id'' \<and>
       map_of c ''userId'' = map_of (mark_attrs m) ''userId''"
    by (rule getComments_sound)
qed

theorem comment_fields_witness:
  "wf_node override_doc \<and>
   map (\<lambda>(n, m). mark_attrs m) (comment_marks override_doc) =
     [[(''text'', JStr ''from the mark'')], [(''id'', JStr ''b''), (''userId'', JStr ''u2'')]] \<and>
   length (getComments plain_schema override_doc) = 2 \<and>
   map_of (getComments plain_schema override_doc ! 0) ''text'' = Some (JStr ''hello'') \<and>
   map_of (getComments plain_schema override_doc ! 0) ''id'' = None \<and>
   map_of (getComments plain_schema override_doc ! 0) ''userId'' = None \<and>
   map_of (getComments plain_schema override_doc ! 1) ''text'' = Some (JStr ''hello'') \<and>
   map_of (getComments plain_schema override_doc ! 1) ''id'' = Some (JStr ''b'') \<and>
   map_of (getComments plain_schema override_doc ! 1) ''userId'' = Some (JStr ''u2'')"
proof -
  let ?t = "Text [Mark ''comment'' [(''text'', JStr ''from the mark'')],
                  Mark ''comment'' [(''id'', JStr ''b''), (''userId'', JStr ''u2'')]] ''hello''"
  have w: "wf_node override_doc"
    by code_simp
  have cm: "comment_marks override_doc =
      [(?t, Mark ''comment'' [(''text'', JStr ''from the mark'')]),
       (?t, Mark ''comment'' [(''id'', JStr ''b''), (''userId'', JStr ''u2'')])]"
    by code_simp
  have t: "textContent plain_schema ?t = ''hello''"
    by (simp add: textContent_def)
  note all = comment_fields [of override_doc plain_schema, THEN conjunct1, rule_format, OF w,
      unfolded cm list_all2_conv_all_nth]
  from all have len: "length (getComments plain_schema override_doc) = 2"
    by simp
  from all have "map_of (getComments plain_schema override_doc ! 0) ''text'' = Some (JStr ''hello'') \<and>
      map_of (getComments plain_schema override_doc ! 0) ''id'' = None \<and>
      map_of (getComments plain_schema override_doc ! 0) ''userId'' = None"
    using t by (auto dest!: spec [of _ 0])
  moreover from all have "map_of (getComments plain_schema override_doc ! 1) ''text'' = Some (JStr ''hello'') \<and>
      map_of (getComments plain_schema override_doc ! 1) ''id'' = Some (JStr ''b'') \<and>
      map_of (getComments plain_schema override_doc ! 1) ''userId'' = Some (JStr ''u2'')"
    using t by (auto dest!: spec [of _ 1])
  ultimately show ?thesis
    using w len by (simp add: cm)
qed

section \<open>Emptiness\<close>

lemma js_trim_empty: "js_trim s = [] \<longleftrightarrow> (\<forall>c\<in>set s. is_white_space c)"
proof
  assume "js_trim s = []"
  then have all: "\<forall>c\<in>set (dropWhile is_white_space s). is_white_space c"
    by (simp add: js_trim_def dropWhile_eq_Nil_conv)
  have "dropWhile is_white_space s = []"
  proof (rule ccontr)
    assume ne: "dropWhile is_white_space s \<noteq> []"
    then have "\<not> is_white_space (hd (dropWhile is_white_space s))"
      by (rule hd_dropWhile)
    moreover have "hd (dropWhile is_white_space s) \<in> set (dropWhile is_white_space s)"
      using ne by simp
    ultimately show False
      using all by blast
  qed
  then show "\<forall>c\<in>set s. is_white_space c"
    by (simp add: dropWhile_eq_Nil_conv)
next
  assume "\<forall>c\<in>set s. is_white_space c"
  then have "dropWhile is_white_space s = []"
    by (simp add: dropWhile_eq_Nil_conv)
  then show "js_trim s = []"
    unfolding js_trim_def by (simp only: rev.simps dropWhile.simps)
qed

lemma js_trim_empty_all: "js_trim s = [] \<longleftrightarrow> list_all is_white_space s"
  by (simp only: js_trim_empty list_all_iff)

lemma white_space_newline: "is_white_space (CHR 0x0A)"
  by (simp add: is_white_space_def)

text \<open>Claim C2, as amended. For every document none of whose nodes has a type for which the
  schema registers a plain-text serializer or a leaf text, \<open>isEmpty D\<close> holds exactly when
  \<open>toPlainText D schema\<close> trims to the empty string. \<open>getEmptyDocument\<close> returns JSON data,
  which \<open>isEmpty\<close> does not take; a node of the JSON's shape, a document with one paragraph
  without children, is such a document under a schema without these functions, and both
  sides are true of it.\<close>

theorem emptiness_consistent_plain:
  assumes h: "(\<forall>n\<in>set (subnodes doc). textSerializers schema (type_name n) = None \<and> leafText schema n = None) \<and>
    \<not> isText doc"
  shows "isEmpty schema (Some doc) = (js_trim (toPlainText doc schema) = [])"
proof -
  have "leafText schema doc = None"
    using h subnodes_self [of doc] by blast
  then have tc: "textContent schema doc =
      Fragment_textBetween schema (content doc) 0 (fragment_size (content doc)) []"
    using h by (simp add: textContent_def)
  show "isEmpty schema (Some doc) = (js_trim (toPlainText doc schema) = [])"
    unfolding isEmpty_def option.case js_trim_empty_all tc Fragment_textBetween_def toPlainText_def
      textBetween_def Let_def
  proof (rule nodesBetween_related
      [where R = "\<lambda>s t. list_all is_white_space (fst s) = list_all is_white_space (fst t)"],
      goal_cases)
    case (1 n p s t)
    then obtain c where "c \<in> set (content doc)" "n \<in> set (subnodes c)"
      by auto
    then have "n \<in> set (subnodes doc)"
      using subnodes_content by blast
    then have plain: "textSerializers schema (type_name n) = None" "leafText schema n = None"
      using h by auto
    obtain t1 f1 where s: "s = (t1, f1)" by (cases s)
    obtain t2 f2 where t: "t = (t2, f2)" by (cases t)
    have R: "list_all is_white_space t1 = list_all is_white_space t2"
      using 1(2) by (simp add: s t)
    show ?case
      unfolding s t plain using R white_space_newline by simp
  next
    case 2
    show ?case by simp
  qed
qed

theorem emptiness_consistent_plain_witness:
  "isEmpty plain_schema (Some hello_doc) = (js_trim (toPlainText hello_doc plain_schema) = []) \<and>
   js_trim (toPlainText hello_doc plain_schema) = ''Hello'' \<and>
   data_type getEmptyDocument = type_name empty_doc_node \<and>
   map data_type (data_content getEmptyDocument) = map type_name (content empty_doc_node) \<and>
   isEmpty plain_schema (Some empty_doc_node) = (js_trim (toPlainText empty_doc_node plain_schema) = []) \<and>
   js_trim (toPlainText empty_doc_node plain_schema) = []"
proof -
  have p: "(\<forall>n\<in>set (subnodes d). textSerializers plain_schema (type_name n) = None \<and>
      leafText plain_schema n = None)" for d
    by (simp add: textSerializers_def leafText_def plain_schema_def)
  have t: "\<not> isText hello_doc" "\<not> isText empty_doc_node"
    by (simp_all add: hello_doc_def empty_doc_node_def)
  have e: "js_trim (toPlainText hello_doc plain_schema) = ''Hello''"
      "js_trim (toPlainText empty_doc_node plain_schema) = []"
      "data_type getEmptyDocument = type_name empty_doc_node"
      "map data_type (data_content getEmptyDocument) = map type_name (content empty_doc_node)"
    by code_simp+
  show ?thesis
    using emptiness_consistent_plain [of hello_doc plain_schema]
      emptiness_consistent_plain [of empty_doc_node plain_schema] p t e
    by simp
qed

text \<open>Claim C2 as stated, for every document, fails: \<open>isEmpty\<close> reads the tree's own text
  content, which knows no serializer. A paragraph that holds one mention is empty for
  \<open>isEmpty\<close>, and its plain text is the mention's label.\<close>

theorem emptiness_serializer_counterexample:
  "isEmpty mention_schema (Some mention_doc) \<and>
   js_trim (toPlainText mention_doc mention_schema) = ''@bob''"
  by code_simp

section \<open>Headings\<close>







text \<open>Claim C1 says that the ids of \<open>getHeadings\<close> are pairwise distinct for every document,
  also when one heading's text slugifies to another heading's disambiguated id. The code
  counts occurrences of base ids only: after Intro, Intro, the heading Intro 1 gets the id
  intro-1 a second time.\<close>

theorem heading_ids_clash:
  "map id' (getHeadings plain_schema clash_doc) = [''intro'', ''intro-1'', ''intro-1''] \<and>
   \<not> distinct (map id' (getHeadings plain_schema clash_doc))"
proof -
  have e: "map id' (getHeadings plain_schema clash_doc) = [''intro'', ''intro-1'', ''intro-1'']"
    by code_simp
  show ?thesis
    unfolding e by simp
qed

text \<open>The object \<open>previouslySeen\<close> at a base id that \<^verbatim>\<open>Object.prototype\<close> has as a key: the
  inherited value is not a number, so no heading with this base id is disambiguated.\<close>

lemma getHeadings_constructor:
  "map id' (getHeadings plain_schema constructor_doc) = [''constructor'', ''constructor'', ''constructor'']"
  by code_simp

end
